theory Spec2Isabelle
  imports Complex_Main
begin

section \<open>Values the vision model's answer can be (types/index.ts)\<close>

text \<open>
  The interface \<open>AIAction\<close> is a compile-time type: at run time the answer is whatever
  \<open>JSON.parse\<close> gave, cast unchecked. So an answer is a JSON value: null, a boolean,
  a number, a string, an array, or an object with its properties in order (the first
  entry under a name is the property of that name).
\<close>

datatype json =
    JNull
  | JBool bool
  | JNum rat
  | JStr string
  | JArr "json list"
  | JObj "(string \<times> json) list"

text \<open>
  Reading the property \<open>k\<close> of a value that is not null: \<open>None\<close> is
  \<open>undefined\<close>, which is what every value but an object with that property gives.
\<close>

definition property :: "json \<Rightarrow> string \<Rightarrow> json option" where
  "property v k = (case v of JObj kvs \<Rightarrow> map_of kvs k | _ \<Rightarrow> None)"

text \<open>
  The source tests the optional fields by truthiness (\<open>if (action.scrollAmount)\<close>):
  undefined, null, false, the number zero and the empty string take the else branch.
\<close>

definition truthy :: "json option \<Rightarrow> bool" where
  "truthy x =
     (case x of
        None \<Rightarrow> False
      | Some JNull \<Rightarrow> False
      | Some (JBool b) \<Rightarrow> b
      | Some (JNum n) \<Rightarrow> n \<noteq> 0
      | Some (JStr s) \<Rightarrow> s \<noteq> []
      | Some (JArr vs) \<Rightarrow> True
      | Some (JObj kvs) \<Rightarrow> True)"

text \<open>The value of a field that passes the truthiness test.\<close>

definition present :: "json option \<Rightarrow> json option" where
  "present x = (if truthy x then x else None)"

text \<open>The same test on a value typed \<open>string | null | undefined\<close>.\<close>

definition truthy_str :: "string option \<Rightarrow> bool" where
  "truthy_str s = (case s of None \<Rightarrow> False | Some t \<Rightarrow> t \<noteq> [])"

definition present_str :: "string option \<Rightarrow> string option" where
  "present_str s = (if truthy_str s then s else None)"

text \<open>What an awaited call can reject with; \<open>Inl\<close> of a sum is a rejected promise.\<close>

datatype exn =
  ScreenshotError | WriteFileError | EvaluateError | RequestError | SyntaxError
  | SelectorError | QueryError | ClickError | TypeError

section \<open>Cross-frame click by text (clickElementsByText)\<close>

text \<open>
  A frame as the function sees it: its name and URL, the elements \<open>$$eval('a, button')\<close>
  scans (or \<open>None\<close> when that call throws), and the handles \<open>$$('a, button')\<close>
  returns (or \<open>None\<close> when it throws). An element carries its text content and
  whether clicking its handle succeeds.
\<close>

record element =
  textContent :: "string option"
  click_ok :: bool

record frame =
  frame_name :: string
  frame_url :: string
  eval_elements :: "element list option"
  query_elements :: "element list option"

text \<open>
  The page as one call of the executor sees it: its frames, for each page call whether
  it resolves (\<open>True\<close>) or rejects, and the built-in \<open>String.prototype.toLowerCase\<close>,
  which is not part of the source and is taken as it is given. Selectors, texts and
  amounts reach the page calls as the JSON values the answer holds.
\<close>

record page_world =
  frames :: "frame list"
  toLowerCase :: "string \<Rightarrow> string"
  waitForSelector_ok :: "json \<Rightarrow> bool"
  click_selector_ok :: "json \<Rightarrow> bool"
  type_selector_ok :: "json \<Rightarrow> json \<Rightarrow> bool"
  evaluate_ok :: bool

record frame_result =
  r_frame :: string
  r_found :: bool
  r_count :: nat
  r_error :: "exn option"

text \<open>One click on one handle: the frame's label, the index, and whether it went through.\<close>

datatype click_event = ClickEvent string nat bool

text \<open>\<open>s.includes(t)\<close>\<close>

fun includes_str :: "string \<Rightarrow> string \<Rightarrow> bool" where
  "includes_str [] t = (t = [])"
| "includes_str (c # cs) t = (take (length t) (c # cs) = t \<or> includes_str cs t)"

text \<open>The callback of \<open>$$eval\<close>: the indexes of the elements whose lowered text holds \<open>t\<close>.\<close>

definition matching_indexes :: "(string \<Rightarrow> string) \<Rightarrow> element list \<Rightarrow> string \<Rightarrow> nat list" where
  "matching_indexes lower els t =
     filter (\<lambda>idx. case textContent (els ! idx) of
                       None \<Rightarrow> False
                     | Some s \<Rightarrow> includes_str (lower s) t)
            [0..<length els]"

text \<open>\<open>frame.name() || frame.url()\<close>\<close>

definition frame_label :: "frame \<Rightarrow> string" where
  "frame_label f = (if frame_name f \<noteq> [] then frame_name f else frame_url f)"

text \<open>
  \<open>Promise.all\<close>: the values in order when every promise resolves, a rejection when
  one rejects.
\<close>

fun promise_all :: "(exn + 'a) list \<Rightarrow> exn + 'a list" where
  "promise_all [] = Inr []"
| "promise_all (p # ps) =
     (case p of
        Inl e \<Rightarrow> Inl e
      | Inr v \<Rightarrow> (case promise_all ps of Inl e \<Rightarrow> Inl e | Inr vs \<Rightarrow> Inr (v # vs)))"

text \<open>
  The callback of the inner \<open>Promise.all\<close>: the body of its \<open>try\<close>, then the
  \<open>catch\<close> that only logs.
\<close>

definition click_try :: "string \<Rightarrow> element list \<Rightarrow> nat \<Rightarrow> exn + click_event list" where
  "click_try label allElements idx =
     (if idx < length allElements
      then (if click_ok (allElements ! idx)
            then Inr [ClickEvent label idx True] else Inl ClickError)
      else Inr [])"

definition click_index :: "string \<Rightarrow> element list \<Rightarrow> nat \<Rightarrow> exn + click_event list" where
  "click_index label allElements idx =
     (case click_try label allElements idx of
        Inl clickError \<Rightarrow> Inr [ClickEvent label idx False]
      | Inr evs \<Rightarrow> Inr evs)"

text \<open>The callback of the outer \<open>Promise.all\<close>: the \<open>try\<close> body of one frame.\<close>

definition frame_try ::
  "(string \<Rightarrow> string) \<Rightarrow> string \<Rightarrow> frame \<Rightarrow> exn + (frame_result \<times> click_event list)" where
  "frame_try lower searchText f =
     (case eval_elements f of
        None \<Rightarrow> Inl QueryError
      | Some els \<Rightarrow>
          (let elementIndexes = matching_indexes lower els searchText in
           if length elementIndexes = 0
           then Inr (\<lparr>r_frame = frame_label f, r_found = False, r_count = 0,
                       r_error = None\<rparr>, [])
           else (case query_elements f of
                   None \<Rightarrow> Inl QueryError
                 | Some allElements \<Rightarrow>
                     (case promise_all
                             (map (click_index (frame_label f) allElements) elementIndexes) of
                        Inl e \<Rightarrow> Inl e
                      | Inr evs \<Rightarrow>
                          Inr (\<lparr>r_frame = frame_label f, r_found = True,
                                 r_count = length elementIndexes, r_error = None\<rparr>,
                               concat evs)))))"

definition frame_callback ::
  "(string \<Rightarrow> string) \<Rightarrow> string \<Rightarrow> frame \<Rightarrow> exn + (frame_result \<times> click_event list)" where
  "frame_callback lower searchText f =
     (case frame_try lower searchText f of
        Inl e \<Rightarrow> Inr (\<lparr>r_frame = frame_label f, r_found = False, r_count = 0,
                         r_error = Some e\<rparr>, [])
      | Inr res \<Rightarrow> Inr res)"

text \<open>
  The function returns nothing; what it computes goes to the log. The summary keeps
  the per-frame results, the frames reported as successful, the total it logs and the
  clicks made. Its second parameter is typed \<open>string\<close>; what a value of another type
  does there is written where the executor passes it.
\<close>

record click_summary =
  results :: "frame_result list"
  successfulFrames :: "frame_result list"
  totalClicks :: nat
  clicks :: "click_event list"

definition clickElementsByText :: "page_world \<Rightarrow> string \<Rightarrow> exn + click_summary" where
  "clickElementsByText p target =
     (let searchText = toLowerCase p target in
      case promise_all (map (frame_callback (toLowerCase p) searchText) (frames p)) of
        Inl e \<Rightarrow> Inl e
      | Inr rs \<Rightarrow>
          (let successful = filter r_found (map fst rs) in
           Inr \<lparr>results = map fst rs,
                successfulFrames = successful,
                totalClicks = foldl (\<lambda>sum r. sum + r_count r) 0 successful,
                clicks = concat (map snd rs)\<rparr>))"

section \<open>Executing one action (executeAction)\<close>

datatype page_effect =
    TextClicks click_summary
  | SelectorClick json
  | Typed json json
  | ScrollBy json
  | SetTimeout json

definition click_selector_try :: "page_world \<Rightarrow> json \<Rightarrow> exn + page_effect list" where
  "click_selector_try p sel =
     (if \<not> waitForSelector_ok p sel then Inl SelectorError
      else if \<not> click_selector_ok p sel then Inl ClickError
      else Inr [SelectorClick sel])"

definition type_selector_try :: "page_world \<Rightarrow> json \<Rightarrow> json \<Rightarrow> exn + page_effect list" where
  "type_selector_try p sel txt =
     (if \<not> waitForSelector_ok p sel then Inl SelectorError
      else if \<not> type_selector_ok p sel txt then Inl SelectorError
      else Inr [Typed sel txt])"

text \<open>
  The branch of \<open>case 'click'\<close>. A truthy \<open>targetText\<close> goes to
  \<open>clickElementsByText\<close>, whose first use of it is \<open>targetText.toLowerCase()\<close>,
  outside any \<open>try\<close>: on a value that is not a string that call throws.
\<close>

definition execute_click :: "page_world \<Rightarrow> json \<Rightarrow> exn + (bool \<times> page_effect list)" where
  "execute_click p a =
     (case present (property a ''targetText'') of
        Some (JStr t) \<Rightarrow>
          (case clickElementsByText p t of
             Inl e \<Rightarrow> Inl e
           | Inr summary \<Rightarrow> Inr (True, [TextClicks summary]))
      | Some other \<Rightarrow> Inl TypeError
      | None \<Rightarrow>
          (case present (property a ''targetSelector'') of
             Some sel \<Rightarrow>
               (case click_selector_try p sel of
                  Inl e \<Rightarrow> Inr (False, [])
                | Inr effs \<Rightarrow> Inr (True, effs))
           | None \<Rightarrow> Inr (False, [])))"

definition execute_type :: "page_world \<Rightarrow> json \<Rightarrow> exn + (bool \<times> page_effect list)" where
  "execute_type p a =
     (case (present (property a ''targetSelector''), present (property a ''inputText'')) of
        (Some sel, Some txt) \<Rightarrow>
          (case type_selector_try p sel txt of
             Inl e \<Rightarrow> Inr (False, [])
           | Inr effs \<Rightarrow> Inr (True, effs))
      | _ \<Rightarrow> Inr (False, []))"

definition execute_scroll :: "page_world \<Rightarrow> json \<Rightarrow> exn + (bool \<times> page_effect list)" where
  "execute_scroll p a =
     (case present (property a ''scrollAmount'') of
        Some amount \<Rightarrow>
          (if evaluate_ok p then Inr (True, [ScrollBy amount]) else Inl EvaluateError)
      | None \<Rightarrow> Inr (False, []))"

definition execute_wait :: "page_world \<Rightarrow> json \<Rightarrow> exn + (bool \<times> page_effect list)" where
  "execute_wait p a =
     (case present (property a ''waitTime'') of
        Some ms \<Rightarrow> Inr (True, [SetTimeout ms])
      | None \<Rightarrow> Inr (False, []))"

text \<open>
  The function: its first statement reads \<open>action.action\<close> for the log, which throws
  on null; then the \<open>switch\<close>, which compares with \<open>===\<close> and sends every other value
  to \<open>default\<close>.
\<close>

definition executeAction :: "page_world \<Rightarrow> json \<Rightarrow> exn + (bool \<times> page_effect list)" where
  "executeAction p a =
     (if a = JNull then Inl TypeError
      else if property a ''action'' = Some (JStr ''click'') then execute_click p a
      else if property a ''action'' = Some (JStr ''type'') then execute_type p a
      else if property a ''action'' = Some (JStr ''scroll'') then execute_scroll p a
      else if property a ''action'' = Some (JStr ''wait'') then execute_wait p a
      else Inr (False, []))"

section \<open>The vision classifier (analyzePageWithAI)\<close>

text \<open>
  The chat completion the client returns: a list of choices, each with the content of
  its message (\<open>None\<close> for \<open>null\<close>). The remote model is a function from the image
  sent to the outcome of the request. \<open>JSON.parse\<close> is a parameter of the model: on
  a text it either throws or gives a JSON value.
\<close>

record choice =
  message_content :: "string option"

record completion =
  choices :: "choice list"

type_synonym json_parse = "string \<Rightarrow> exn + json"
type_synonym chat_api = "string \<Rightarrow> exn + completion"

definition fallback_content :: string where
  \<open>fallback_content = ''{"action": "none", "reason": "Failed to get response"}''\<close>

text \<open>\<open>response.choices[0]?.message.content || fallback\<close>\<close>

definition response_content :: "completion \<Rightarrow> string" where
  "response_content response =
     (case choices response of
        [] \<Rightarrow> fallback_content
      | c # _ \<Rightarrow>
          (case present_str (message_content c) of
             None \<Rightarrow> fallback_content
           | Some s \<Rightarrow> s))"

text \<open>The body of the \<open>try\<close>: the parsed value is returned as it is.\<close>

definition analyze_try :: "json_parse \<Rightarrow> chat_api \<Rightarrow> string \<Rightarrow> exn + json" where
  "analyze_try jsonParse api base64Image =
     (case api base64Image of
        Inl e \<Rightarrow> Inl e
      | Inr response \<Rightarrow> jsonParse (response_content response))"

definition analyzePageWithAI :: "json_parse \<Rightarrow> chat_api \<Rightarrow> string \<Rightarrow> exn + json" where
  "analyzePageWithAI jsonParse api base64Image =
     (case analyze_try jsonParse api base64Image of
        Inl e \<Rightarrow>
          Inr (JObj [(''action'', JStr ''none''),
                     (''reason'', JStr ''Error parsing AI response'')])
      | Inr a \<Rightarrow> Inr a)"

section \<open>The interaction loop (handlePageInteractions)\<close>

text \<open>
  What one iteration meets: the screenshot the page gives (\<open>None\<close> when the call
  rejects), whether writing the file resolves, the remote model and the page. The
  world of a run gives one of these for each iteration, counted from 0.
\<close>

record iter_world =
  screenshot_result :: "string option"
  writeFile_ok :: bool
  chat :: chat_api
  page :: page_world

text \<open>
  The effects of the loop in program order. \<open>Settle\<close> is the loop's own
  \<open>setTimeout\<close>; the executor's effects stay inside \<open>Execute\<close>.
\<close>

datatype event =
    Screenshot string
  | WriteFile string
  | Classify string json
  | Execute json bool "page_effect list"
  | Settle int

record loop_state =
  interactionFound :: bool
  attempts :: int
  trace :: "event list"

text \<open>
  The test \<open>action.action === 'none'\<close> reads a property of the answer, which throws
  on null; nothing in the loop catches.
\<close>

function interaction_loop ::
  "json_parse \<Rightarrow> (nat \<Rightarrow> iter_world) \<Rightarrow> int \<Rightarrow> loop_state \<Rightarrow> exn + loop_state" where
  "interaction_loop jsonParse w maxAttempts st =
     (if attempts st < maxAttempts then
        (case screenshot_result (w (nat (attempts st))) of
           None \<Rightarrow> Inl ScreenshotError
         | Some shot \<Rightarrow>
             if \<not> writeFile_ok (w (nat (attempts st))) then Inl WriteFileError
             else
               (case analyzePageWithAI jsonParse (chat (w (nat (attempts st)))) shot of
                  Inl e \<Rightarrow> Inl e
                | Inr act \<Rightarrow>
                    if act = JNull then Inl TypeError
                    else if property act ''action'' = Some (JStr ''none'')
                    then Inr (st\<lparr>trace := trace st
                                  @ [Screenshot shot, WriteFile shot, Classify shot act]\<rparr>)
                    else
                      (case executeAction (page (w (nat (attempts st)))) act of
                         Inl e \<Rightarrow> Inl e
                       | Inr (actionSuccess, effs) \<Rightarrow>
                           interaction_loop jsonParse w maxAttempts
                             \<lparr>interactionFound =
                                (if actionSuccess then True else interactionFound st),
                              attempts = attempts st + 1,
                              trace = trace st
                                @ [Screenshot shot, WriteFile shot, Classify shot act,
                                   Execute act actionSuccess effs]
                                @ (if actionSuccess then [Settle 2000] else [])\<rparr>)))
      else Inr st)"
  by pat_completeness auto
termination
  by (relation "measure (\<lambda>(jsonParse, w, maxAttempts, st). nat (maxAttempts - attempts st))")
     auto

text \<open>
  The source returns \<open>interactionFound\<close>; the model returns the final state, which
  also holds the counter \<open>attempts\<close> and the effects.
\<close>

definition handlePageInteractions ::
  "json_parse \<Rightarrow> (nat \<Rightarrow> iter_world) \<Rightarrow> int \<Rightarrow> exn + loop_state" where
  "handlePageInteractions jsonParse w maxAttempts =
     interaction_loop jsonParse w maxAttempts
       \<lparr>interactionFound = False, attempts = 0, trace = []\<rparr>"

declare interaction_loop.simps [simp del]

text \<open>Reading a trace: the screenshots taken, the classifier's answers, the actions run.\<close>

fun screenshots :: "event list \<Rightarrow> string list" where
  "screenshots [] = []"
| "screenshots (Screenshot s # es) = s # screenshots es"
| "screenshots (e # es) = screenshots es"

fun classified :: "event list \<Rightarrow> json list" where
  "classified [] = []"
| "classified (Classify s a # es) = a # classified es"
| "classified (e # es) = classified es"

fun executed :: "event list \<Rightarrow> json list" where
  "executed [] = []"
| "executed (Execute a ok effs # es) = a # executed es"
| "executed (e # es) = executed es"

text \<open>
  The classifier's answer in one iteration: the screenshot is taken, then sent.
\<close>

definition decision :: "json_parse \<Rightarrow> iter_world \<Rightarrow> exn + json" where
  "decision jsonParse iw =
     (case screenshot_result iw of
        None \<Rightarrow> Inl ScreenshotError
      | Some shot \<Rightarrow> analyzePageWithAI jsonParse (chat iw) shot)"


section \<open>The code-block rule of the Markdown renderer (configureTurndownService)\<close>

text \<open>
  What the rule reads of a \<open>pre\<close> node: the first \<open>code\<close> descendant
  (\<open>querySelector('code')\<close>), of which only the class name is read, and the node's
  \<open>data-language\<close> attribute (\<open>None\<close> when \<open>getAttribute\<close> gives null).
\<close>

record code_element =
  className :: string

record pre_element =
  first_code :: "code_element option"
  data_language :: "string option"

definition nl :: char where
  "nl = CHR 0x0A"

text \<open>The class \<open>\w\<close> of the regular expression: letters, digits and underscore.\<close>

definition word_char :: "char \<Rightarrow> bool" where
  "word_char c =
     ((48 \<le> (of_char c :: nat) \<and> (of_char c :: nat) \<le> 57)
      \<or> (65 \<le> (of_char c :: nat) \<and> (of_char c :: nat) \<le> 90)
      \<or> (of_char c :: nat) = 95
      \<or> (97 \<le> (of_char c :: nat) \<and> (of_char c :: nat) \<le> 122))"

text \<open>
  \<open>className.match(/language-(\w+)/)?.[1]\<close>: the leftmost place where the literal is
  followed by a word character, and the longest run of word characters there.
\<close>

fun match_language :: "string \<Rightarrow> string option" where
  "match_language [] = None"
| "match_language (c # cs) =
     (if take 9 (c # cs) = ''language-'' \<and> takeWhile word_char (drop 9 (c # cs)) \<noteq> []
      then Some (takeWhile word_char (drop 9 (c # cs)))
      else match_language cs)"

text \<open>\<open>code?.className?.match(/language-(\w+)/)?.[1]\<close>\<close>

definition code_language :: "pre_element \<Rightarrow> string option" where
  "code_language node =
     (case first_code node of
        None \<Rightarrow> None
      | Some code \<Rightarrow> match_language (className code))"

definition language :: "pre_element \<Rightarrow> string" where
  "language node =
     (case present_str (code_language node) of
        Some l \<Rightarrow> l
      | None \<Rightarrow>
          (case present_str (data_language node) of
             Some d \<Rightarrow> d
           | None \<Rightarrow> ''yaml''))"

text \<open>\<open>replace(/^\n+|\n+$/g, '')\<close>\<close>

definition strip_newlines :: "string \<Rightarrow> string" where
  "strip_newlines s = rev (dropWhile (\<lambda>c. c = nl) (rev (dropWhile (\<lambda>c. c = nl) s)))"

text \<open>\<open>replace(/\n\n+/g, '\n')\<close>\<close>

function collapse_newlines :: "string \<Rightarrow> string" where
  "collapse_newlines [] = []"
| "collapse_newlines [c] = [c]"
| "collapse_newlines (c # d # cs) =
     (if c = nl \<and> d = nl then nl # collapse_newlines (dropWhile (\<lambda>x. x = nl) cs)
      else c # collapse_newlines (d # cs))"
  by pat_completeness auto
termination
  by (relation "measure length") (auto simp: less_Suc_eq_le le_SucI length_dropWhile_le)

definition cleanContent :: "string \<Rightarrow> string" where
  "cleanContent content = collapse_newlines (strip_newlines content)"

definition codeBlocks_replacement :: "string \<Rightarrow> pre_element \<Rightarrow> string" where
  "codeBlocks_replacement content node =
     [nl] @ ''```'' @ language node @ [nl] @ cleanContent content @ [nl] @ ''```'' @ [nl]"

text \<open>Lines of a text: the pieces between its newlines, and back.\<close>

fun split_lines :: "string \<Rightarrow> string list" where
  "split_lines [] = [[]]"
| "split_lines (c # cs) =
     (if c = nl then [] # split_lines cs
      else (case split_lines cs of
              [] \<Rightarrow> [[c]]
            | l # ls \<Rightarrow> (c # l) # ls))"

fun join_lines :: "string list \<Rightarrow> string" where
  "join_lines [] = []"
| "join_lines [l] = l"
| "join_lines (l # ls) = l @ nl # join_lines ls"

text \<open>The lines of a text that are not empty, in order.\<close>

definition kept_lines :: "string \<Rightarrow> string list" where
  "kept_lines s = filter (\<lambda>l. l \<noteq> []) (split_lines s)"

text \<open>
  The interior as the specification words it, on lines: blank lines at either end are
  dropped, and a run of two or more blank lines becomes one blank line.
\<close>

fun spec_collapse_blank :: "string list \<Rightarrow> string list" where
  "spec_collapse_blank [] = []"
| "spec_collapse_blank [l] = [l]"
| "spec_collapse_blank (l # m # ls) =
     (if l = [] \<and> m = [] then spec_collapse_blank (m # ls)
      else l # spec_collapse_blank (m # ls))"

definition spec_trim_blank :: "string list \<Rightarrow> string list" where
  "spec_trim_blank ls = rev (dropWhile (\<lambda>l. l = []) (rev (dropWhile (\<lambda>l. l = []) ls)))"

definition spec_interior :: "string \<Rightarrow> string" where
  "spec_interior content = join_lines (spec_collapse_blank (spec_trim_blank (split_lines content)))"

section \<open>The response of the scrape tool (registerTools)\<close>

text \<open>The template literal's rendering of a length: decimal digits.\<close>

definition digit_char :: "nat \<Rightarrow> char" where
  "digit_char d = ''0123456789'' ! d"

function show_nat :: "nat \<Rightarrow> string" where
  "show_nat n =
     (if n < 10 then [digit_char n]
      else show_nat (n div 10) @ [digit_char (n mod 10)])"
  by pat_completeness auto
termination
  by (relation "measure id") auto

declare show_nat.simps [simp del]

record error_info =
  error_message :: string

record ScrapeResult =
  result_data :: "string option"
  result_error :: "error_info option"

record ToolResponse =
  content_text :: string
  meta_message :: string
  meta_success :: bool
  meta_contentSize :: "nat option"
  isError :: bool

definition maxLength :: nat where
  "maxLength = 100000"

definition createSuccessResponse :: "string \<Rightarrow> string \<Rightarrow> ToolResponse" where
  "createSuccessResponse txt msg =
     \<lparr>content_text = txt, meta_message = msg, meta_success = True,
      meta_contentSize = Some (length txt), isError = False\<rparr>"

definition createErrorResponse :: "string \<Rightarrow> ToolResponse" where
  "createErrorResponse msg =
     \<lparr>content_text = [], meta_message = msg, meta_success = False,
      meta_contentSize = None, isError = True\<rparr>"

text \<open>
  The tool's handler after \<open>visitWebPage\<close> has settled: \<open>Inl\<close> is a rejection with
  its message, \<open>Inr\<close> the scrape result. A string is the list of the units that
  \<open>length\<close> and \<open>substring\<close> count.
\<close>

definition scrape_tool :: "string + ScrapeResult \<Rightarrow> ToolResponse" where
  "scrape_tool visited =
     (case visited of
        Inl msg \<Rightarrow> createErrorResponse (''Error scraping webpage: '' @ msg)
      | Inr result \<Rightarrow>
          (case result_error result of
             Some e \<Rightarrow> createErrorResponse (error_message e)
           | None \<Rightarrow>
               (let markdownContent =
                      (case present_str (result_data result) of Some d \<Rightarrow> d | None \<Rightarrow> [])
                in if length markdownContent > maxLength
                   then createSuccessResponse (take maxLength markdownContent)
                          (''Content truncated due to size (total size: ''
                           @ show_nat (length (take maxLength markdownContent))
                           @ '' characters)'')
                   else createSuccessResponse markdownContent ''Scraping successful'')))"


section \<open>Notions used in the statements\<close>



text \<open>
  What one frame adds to the totals, read off the frame alone: the number of its
  matching elements when both of its queries answer, and the clicks on those of them
  that have a handle. A frame with a failing query adds nothing.
\<close>

definition frame_count :: "(string \<Rightarrow> string) \<Rightarrow> string \<Rightarrow> frame \<Rightarrow> nat" where
  "frame_count lower t f =
     (case eval_elements f of
        None \<Rightarrow> 0
      | Some els \<Rightarrow>
          (case query_elements f of
             None \<Rightarrow> 0
           | Some hs \<Rightarrow> length (matching_indexes lower els t)))"

definition frame_clicks :: "(string \<Rightarrow> string) \<Rightarrow> string \<Rightarrow> frame \<Rightarrow> click_event list" where
  "frame_clicks lower t f =
     (case eval_elements f of
        None \<Rightarrow> []
      | Some els \<Rightarrow>
          (case query_elements f of
             None \<Rightarrow> []
           | Some hs \<Rightarrow>
               concat (map (\<lambda>idx. if idx < length hs
                                    then [ClickEvent (frame_label f) idx (click_ok (hs ! idx))]
                                    else [])
                           (matching_indexes lower els t))))"

section \<open>Sample inputs\<close>

text \<open>
  A \<open>toLowerCase\<close> for the samples: it lowers the letters A to Z and leaves every
  other character as it is.
\<close>

definition ascii_lower_char :: "char \<Rightarrow> char" where
  "ascii_lower_char c =
     (if 65 \<le> (of_char c :: nat) \<and> (of_char c :: nat) \<le> 90
      then char_of ((of_char c :: nat) + 32) else c)"

definition ascii_lower :: "string \<Rightarrow> string" where
  "ascii_lower s = map ascii_lower_char s"

definition quiet_page :: page_world where
  "quiet_page =
     \<lparr>frames = [], toLowerCase = ascii_lower, waitForSelector_ok = (\<lambda>sel. True),
      click_selector_ok = (\<lambda>sel. True), type_selector_ok = (\<lambda>sel txt. True),
      evaluate_ok = True\<rparr>"

definition scroll_by :: "rat \<Rightarrow> json" where
  "scroll_by n =
     JObj [(''action'', JStr ''scroll''), (''scrollAmount'', JNum n),
           (''reason'', JStr ''scroll'')]"

definition click_selector :: "string \<Rightarrow> json" where
  "click_selector sel =
     JObj [(''action'', JStr ''click''), (''targetSelector'', JStr sel),
           (''reason'', JStr ''click'')]"

definition none_answer :: "string \<Rightarrow> json" where
  "none_answer why = JObj [(''action'', JStr ''none''), (''reason'', JStr why)]"

definition hover_answer :: json where
  "hover_answer = JObj [(''action'', JStr ''hover'')]"

text \<open>
  A \<open>JSON.parse\<close> cut down to the texts the samples use; it throws on every other.
\<close>

definition scroll_json :: string where
  \<open>scroll_json = ''{"action": "scroll", "scrollAmount": 300, "reason": "scroll"}''\<close>

definition click_json :: string where
  \<open>click_json = ''{"action": "click", "targetSelector": "#gone", "reason": "click"}''\<close>

definition none_json :: string where
  \<open>none_json = ''{"action": "none", "reason": "No interaction needed"}''\<close>

definition hover_json :: string where
  \<open>hover_json = ''{"action": "hover"}''\<close>

definition sample_parse :: json_parse where
  "sample_parse s =
     (if s = fallback_content then Inr (none_answer ''Failed to get response'')
      else if s = scroll_json then Inr (scroll_by 300)
      else if s = click_json then Inr (click_selector ''#gone'')
      else if s = none_json then Inr (none_answer ''No interaction needed'')
      else if s = hover_json then Inr hover_answer
      else if s = ''null'' then Inr JNull
      else Inl SyntaxError)"

definition reply :: "string \<Rightarrow> chat_api" where
  "reply s = (\<lambda>image. Inr \<lparr>choices = [\<lparr>message_content = Some s\<rparr>]\<rparr>)"

definition sample_world :: "string \<Rightarrow> iter_world" where
  "sample_world s =
     \<lparr>screenshot_result = Some ''png'', writeFile_ok = True, chat = reply s,
      page = quiet_page\<rparr>"

text \<open>
  A run that is always told to scroll by 300 on a page whose evaluate call rejects.
\<close>

definition scroll_rejected :: "nat \<Rightarrow> iter_world" where
  "scroll_rejected i = (sample_world scroll_json)\<lparr>page := quiet_page\<lparr>evaluate_ok := False\<rparr>\<rparr>"

text \<open>
  Three frames for the text "Accept": two hold a matching button (the second one's
  click fails), the third one's query throws.
\<close>

definition accept_button :: "bool \<Rightarrow> element" where
  "accept_button ok = \<lparr>textContent = Some ''Accept all'', click_ok = ok\<rparr>"

definition other_link :: element where
  "other_link = \<lparr>textContent = Some ''Privacy policy'', click_ok = True\<rparr>"

definition three_frames :: "frame list" where
  "three_frames =
     [\<lparr>frame_name = ''main'', frame_url = ''https://example.org/'',
       eval_elements = Some [other_link, accept_button True],
       query_elements = Some [other_link, accept_button True]\<rparr>,
      \<lparr>frame_name = [], frame_url = ''https://consent.example.org/'',
       eval_elements = Some [accept_button False],
       query_elements = Some [accept_button False]\<rparr>,
      \<lparr>frame_name = ''ads'', frame_url = ''https://ads.example.org/'',
       eval_elements = None, query_elements = None\<rparr>]"

definition three_frame_page :: page_world where
  "three_frame_page = quiet_page\<lparr>frames := three_frames\<rparr>"



text \<open>Two scrape results: a short page, and one of 100,001 characters.\<close>

definition long_markdown :: string where
  "long_markdown = replicate 100001 (CHR ''a'')"

definition short_result :: ScrapeResult where
  "short_result = \<lparr>result_data = Some ''# Title'', result_error = None\<rparr>"

definition long_result :: ScrapeResult where
  "long_result = \<lparr>result_data = Some long_markdown, result_error = None\<rparr>"

text \<open>
  Code blocks: the specification's own example, a block tagged by its attribute, and a
  block with an empty attribute around two lines two blank lines apart.
\<close>

definition python_pre :: pre_element where
  "python_pre = \<lparr>first_code = Some \<lparr>className = ''language-python''\<rparr>, data_language = None\<rparr>"

definition bash_pre :: pre_element where
  "bash_pre = \<lparr>first_code = Some \<lparr>className = ''hljs''\<rparr>, data_language = Some ''bash''\<rparr>"

definition bare_pre :: pre_element where
  "bare_pre = \<lparr>first_code = None, data_language = Some []\<rparr>"

definition two_blank_lines :: string where
  "two_blank_lines = ''a'' @ [nl, nl, nl] @ ''b''"

section \<open>Helper lemmas: promises that always resolve\<close>

lemma click_index_returns:
  "click_index l hs idx =
     Inr (if idx < length hs then [ClickEvent l idx (click_ok (hs ! idx))] else [])"
  by (simp add: click_index_def click_try_def)

lemma promise_all_resolved: "promise_all (map (\<lambda>x. Inr (g x)) xs) = Inr (map g xs)"
  by (induction xs) simp_all

lemma promise_all_click_index:
  "promise_all (map (click_index l hs) idxs) =
     Inr (map (\<lambda>idx. if idx < length hs then [ClickEvent l idx (click_ok (hs ! idx))] else [])
              idxs)"
proof -
  have "click_index l hs =
          (\<lambda>idx. Inr (if idx < length hs then [ClickEvent l idx (click_ok (hs ! idx))] else []))"
    by (rule ext) (rule click_index_returns)
  then show ?thesis
    by (simp only: promise_all_resolved)
qed

lemma frame_callback_returns: "\<exists>res. frame_callback lower t f = Inr res"
  by (simp add: frame_callback_def split: sum.split)

lemma promise_all_frames:
  "promise_all (map (frame_callback lower t) fs)
     = Inr (map (\<lambda>f. projr (frame_callback lower t f)) fs)"
proof -
  have "frame_callback lower t = (\<lambda>f. Inr (projr (frame_callback lower t f)))"
  proof (rule ext)
    fix f
    obtain res where "frame_callback lower t f = Inr res"
      using frame_callback_returns by blast
    then show "frame_callback lower t f = Inr (projr (frame_callback lower t f))" by simp
  qed
  then have "map (frame_callback lower t) fs
               = map (\<lambda>f. Inr (projr (frame_callback lower t f))) fs"
    by metis
  then show ?thesis
    by (simp only: promise_all_resolved)
qed

section \<open>Helper lemmas: unfolding the loop\<close>

lemma classified_append: "classified (xs @ ys) = classified xs @ classified ys"
  by (induction xs rule: classified.induct) simp_all

lemma screenshots_append: "screenshots (xs @ ys) = screenshots xs @ screenshots ys"
  by (induction xs rule: screenshots.induct) simp_all

lemma executed_append: "executed (xs @ ys) = executed xs @ executed ys"
  by (induction xs rule: executed.induct) simp_all

lemma decision_Inr:
  "decision P iw = Inr a \<Longrightarrow>
     \<exists>shot. screenshot_result iw = Some shot \<and> analyzePageWithAI P (chat iw) shot = Inr a"
  by (simp add: decision_def split: option.splits)

lemma loop_stops:
  assumes "attempts st < m"
    and "decision P (w (nat (attempts st))) = Inr a"
    and "writeFile_ok (w (nat (attempts st)))"
    and "a \<noteq> JNull"
    and "property a ''action'' = Some (JStr ''none'')"
  shows "\<exists>shot. interaction_loop P w m st
           = Inr (st\<lparr>trace := trace st @ [Screenshot shot, WriteFile shot, Classify shot a]\<rparr>)"
proof -
  obtain shot where "screenshot_result (w (nat (attempts st))) = Some shot"
    and "analyzePageWithAI P (chat (w (nat (attempts st)))) shot = Inr a"
    using decision_Inr [OF assms(2)] by blast
  with assms(1,3,4,5) have "interaction_loop P w m st
           = Inr (st\<lparr>trace := trace st @ [Screenshot shot, WriteFile shot, Classify shot a]\<rparr>)"
    by (subst interaction_loop.simps) simp
  then show ?thesis by blast
qed

lemma loop_continues:
  assumes "attempts st < m"
    and "decision P (w (nat (attempts st))) = Inr a"
    and "writeFile_ok (w (nat (attempts st)))"
    and "a \<noteq> JNull"
    and "property a ''action'' \<noteq> Some (JStr ''none'')"
    and "executeAction (page (w (nat (attempts st)))) a = Inr (ok, effs)"
  shows "\<exists>shot. interaction_loop P w m st
           = interaction_loop P w m
               \<lparr>interactionFound = (if ok then True else interactionFound st),
                attempts = attempts st + 1,
                trace = trace st
                  @ [Screenshot shot, WriteFile shot, Classify shot a, Execute a ok effs]
                  @ (if ok then [Settle 2000] else [])\<rparr>"
proof -
  obtain shot where s: "screenshot_result (w (nat (attempts st))) = Some shot"
    and c: "analyzePageWithAI P (chat (w (nat (attempts st)))) shot = Inr a"
    using decision_Inr [OF assms(2)] by blast
  have "interaction_loop P w m st
           = interaction_loop P w m
               \<lparr>interactionFound = (if ok then True else interactionFound st),
                attempts = attempts st + 1,
                trace = trace st
                  @ [Screenshot shot, WriteFile shot, Classify shot a, Execute a ok effs]
                  @ (if ok then [Settle 2000] else [])\<rparr>"
    using assms(1,3,4,5,6) s c by (subst interaction_loop.simps) simp
  then show ?thesis by blast
qed

lemma loop_until_none:
  assumes good: "\<forall>j<n. decision P (w j) = Inr (acts j) \<and> acts j \<noteq> JNull
                        \<and> writeFile_ok (w j)
                        \<and> (\<exists>ok effs. executeAction (page (w j)) (acts j) = Inr (ok, effs))"
    and k: "k < n" "property (acts k) ''action'' = Some (JStr ''none'')"
  shows "i \<le> k \<Longrightarrow> attempts st = int i \<Longrightarrow>
         (\<forall>j. i \<le> j \<and> j < k \<longrightarrow> property (acts j) ''action'' \<noteq> Some (JStr ''none'')) \<Longrightarrow>
         \<exists>r. interaction_loop P w (int n) st = Inr r \<and> attempts r = int k
            \<and> classified (trace r) = classified (trace st) @ map acts [i..<Suc k]
            \<and> executed (trace r) = executed (trace st) @ map acts [i..<k]
            \<and> length (screenshots (trace r)) = length (screenshots (trace st)) + (Suc k - i)"
proof (induction "k - i" arbitrary: i st)
  case 0
  then have ik: "i = k" by simp
  have lt: "attempts st < int n" using 0 k by simp
  have idx: "nat (attempts st) = k" using 0 ik by simp
  have gk: "decision P (w k) = Inr (acts k)" "writeFile_ok (w k)" "acts k \<noteq> JNull"
    using good k by simp_all
  obtain shot where "interaction_loop P w (int n) st
           = Inr (st\<lparr>trace := trace st @ [Screenshot shot, WriteFile shot, Classify shot (acts k)]\<rparr>)"
    using loop_stops [OF lt, of P w "acts k", unfolded idx, OF gk(1) gk(2) gk(3) k(2)]
    by blast
  then show ?case
    using 0 ik by (simp add: classified_append executed_append screenshots_append)
next
  case (Suc d)
  then have ik: "i < k" by simp
  have lt: "attempts st < int n" using Suc k by simp
  have idx: "nat (attempts st) = i" using Suc by simp
  have ni: "property (acts i) ''action'' \<noteq> Some (JStr ''none'')" using Suc.prems ik by simp
  have gi: "decision P (w i) = Inr (acts i)" "writeFile_ok (w i)" "acts i \<noteq> JNull"
    using good ik k by simp_all
  have "i < n" using ik k by simp
  then have "\<exists>ok effs. executeAction (page (w i)) (acts i) = Inr (ok, effs)"
    using good by simp
  then obtain ok effs where ex: "executeAction (page (w i)) (acts i) = Inr (ok, effs)"
    by blast
  obtain shot where step: "interaction_loop P w (int n) st
           = interaction_loop P w (int n)
               \<lparr>interactionFound = (if ok then True else interactionFound st),
                attempts = attempts st + 1,
                trace = trace st
                  @ [Screenshot shot, WriteFile shot, Classify shot (acts i), Execute (acts i) ok effs]
                  @ (if ok then [Settle 2000] else [])\<rparr>" (is "_ = interaction_loop P w (int n) ?st'")
    using loop_continues [OF lt, of P w "acts i" ok effs, unfolded idx,
                          OF gi(1) gi(2) gi(3) ni ex]
    by blast
  have "\<exists>r. interaction_loop P w (int n) ?st' = Inr r \<and> attempts r = int k
            \<and> classified (trace r) = classified (trace ?st') @ map acts [Suc i..<Suc k]
            \<and> executed (trace r) = executed (trace ?st') @ map acts [Suc i..<k]
            \<and> length (screenshots (trace r)) = length (screenshots (trace ?st')) + (Suc k - Suc i)"
  proof (rule Suc.hyps(1))
    show "d = k - Suc i" using Suc.hyps(2) by simp
    show "Suc i \<le> k" using ik by simp
    show "attempts ?st' = int (Suc i)" using Suc.prems by simp
    show "\<forall>j. Suc i \<le> j \<and> j < k \<longrightarrow> property (acts j) ''action'' \<noteq> Some (JStr ''none'')" using Suc.prems by simp
  qed
  then obtain r where r: "interaction_loop P w (int n) ?st' = Inr r" "attempts r = int k"
    "classified (trace r) = classified (trace ?st') @ map acts [Suc i..<Suc k]"
    "executed (trace r) = executed (trace ?st') @ map acts [Suc i..<k]"
    "length (screenshots (trace r)) = length (screenshots (trace ?st')) + (Suc k - Suc i)"
    by blast
  have c: "classified (trace ?st') = classified (trace st) @ [acts i]"
    by (simp add: classified_append)
  have e: "executed (trace ?st') = executed (trace st) @ [acts i]"
    by (simp add: executed_append)
  have s: "length (screenshots (trace ?st')) = Suc (length (screenshots (trace st)))"
    by (simp add: screenshots_append)
  have u1: "[i..<Suc k] = i # [Suc i..<Suc k]" using ik by (simp add: upt_conv_Cons)
  have u2: "[i..<k] = i # [Suc i..<k]" using ik by (simp add: upt_conv_Cons)
  have R1: "interaction_loop P w (int n) st = Inr r"
    using step r(1) by (simp only:)
  have R2: "classified (trace r) = classified (trace st) @ map acts [i..<Suc k]"
    unfolding r(3) c u1 by simp
  have R3: "executed (trace r) = executed (trace st) @ map acts [i..<k]"
    unfolding r(4) e u2 by simp
  have R4: "length (screenshots (trace r)) = length (screenshots (trace st)) + (Suc k - i)"
    using ik unfolding r(5) s by simp
  show ?case
    using R1 r(2) R2 R3 R4 by blast
qed


lemma loop_to_cap:
  assumes good: "\<forall>j<n. decision P (w j) = Inr (acts j) \<and> acts j \<noteq> JNull
                        \<and> writeFile_ok (w j)
                        \<and> (\<exists>ok effs. executeAction (page (w j)) (acts j) = Inr (ok, effs))"
  shows "i \<le> n \<Longrightarrow> attempts st = int i \<Longrightarrow>
         (\<forall>j. i \<le> j \<and> j < n \<longrightarrow> property (acts j) ''action'' \<noteq> Some (JStr ''none'')) \<Longrightarrow>
         \<exists>r. interaction_loop P w (int n) st = Inr r \<and> attempts r = int n
            \<and> classified (trace r) = classified (trace st) @ map acts [i..<n]
            \<and> executed (trace r) = executed (trace st) @ map acts [i..<n]
            \<and> length (screenshots (trace r)) = length (screenshots (trace st)) + (n - i)"
proof (induction "n - i" arbitrary: i st)
  case 0
  then have "\<not> attempts st < int n" by simp
  then have "interaction_loop P w (int n) st = Inr st"
    by (subst interaction_loop.simps) simp
  then show ?case using 0 by simp
next
  case (Suc d)
  then have ik: "i < n" by simp
  have lt: "attempts st < int n" using Suc by simp
  have idx: "nat (attempts st) = i" using Suc by simp
  have ni: "property (acts i) ''action'' \<noteq> Some (JStr ''none'')" using Suc.prems ik by simp
  have gi: "decision P (w i) = Inr (acts i)" "writeFile_ok (w i)" "acts i \<noteq> JNull"
    using good ik by simp_all
  have "\<exists>ok effs. executeAction (page (w i)) (acts i) = Inr (ok, effs)"
    using good ik by simp
  then obtain ok effs where ex: "executeAction (page (w i)) (acts i) = Inr (ok, effs)"
    by blast
  obtain shot where step: "interaction_loop P w (int n) st
           = interaction_loop P w (int n)
               \<lparr>interactionFound = (if ok then True else interactionFound st),
                attempts = attempts st + 1,
                trace = trace st
                  @ [Screenshot shot, WriteFile shot, Classify shot (acts i), Execute (acts i) ok effs]
                  @ (if ok then [Settle 2000] else [])\<rparr>" (is "_ = interaction_loop P w (int n) ?st'")
    using loop_continues [OF lt, of P w "acts i" ok effs, unfolded idx,
                          OF gi(1) gi(2) gi(3) ni ex]
    by blast
  have "\<exists>r. interaction_loop P w (int n) ?st' = Inr r \<and> attempts r = int n
            \<and> classified (trace r) = classified (trace ?st') @ map acts [Suc i..<n]
            \<and> executed (trace r) = executed (trace ?st') @ map acts [Suc i..<n]
            \<and> length (screenshots (trace r)) = length (screenshots (trace ?st')) + (n - Suc i)"
  proof (rule Suc.hyps(1))
    show "d = n - Suc i" using Suc.hyps(2) by simp
    show "Suc i \<le> n" using ik by simp
    show "attempts ?st' = int (Suc i)" using Suc.prems by simp
    show "\<forall>j. Suc i \<le> j \<and> j < n \<longrightarrow> property (acts j) ''action'' \<noteq> Some (JStr ''none'')" using Suc.prems by simp
  qed
  then obtain r where r: "interaction_loop P w (int n) ?st' = Inr r" "attempts r = int n"
    "classified (trace r) = classified (trace ?st') @ map acts [Suc i..<n]"
    "executed (trace r) = executed (trace ?st') @ map acts [Suc i..<n]"
    "length (screenshots (trace r)) = length (screenshots (trace ?st')) + (n - Suc i)"
    by blast
  have c: "classified (trace ?st') = classified (trace st) @ [acts i]"
    by (simp add: classified_append)
  have e: "executed (trace ?st') = executed (trace st) @ [acts i]"
    by (simp add: executed_append)
  have s: "length (screenshots (trace ?st')) = Suc (length (screenshots (trace st)))"
    by (simp add: screenshots_append)
  have u1: "[i..<n] = i # [Suc i..<n]" using ik by (simp add: upt_conv_Cons)
  have R1: "interaction_loop P w (int n) st = Inr r"
    using step r(1) by (simp only:)
  have R2: "classified (trace r) = classified (trace st) @ map acts [i..<n]"
    unfolding r(3) c u1 by simp
  have R3: "executed (trace r) = executed (trace st) @ map acts [i..<n]"
    unfolding r(4) e u1 by simp
  have R4: "length (screenshots (trace r)) = length (screenshots (trace st)) + (n - i)"
    using ik unfolding r(5) s by simp
  show ?case
    using R1 r(2) R2 R3 R4 by blast
qed

text \<open>
  What the loop does in the runs where nothing rejects: for every cap \<open>n\<close> and every
  sequence \<open>acts\<close> of answers, none of them null, with the file writes and the
  executor returning, it stops at the first "none" answer or after \<open>n\<close> iterations.
\<close>

lemma loop_stops_at_none_or_cap:
  assumes "\<forall>j<n. decision jsonParse (w j) = Inr (acts j) \<and> acts j \<noteq> JNull
                  \<and> writeFile_ok (w j)
                  \<and> (\<exists>ok effs. executeAction (page (w j)) (acts j) = Inr (ok, effs))"
  shows "\<exists>r. handlePageInteractions jsonParse w (int n) = Inr r
     \<and> (\<forall>k<n. property (acts k) ''action'' = Some (JStr ''none'')
              \<and> (\<forall>j<k. property (acts j) ''action'' \<noteq> Some (JStr ''none''))
           \<longrightarrow> attempts r = int k
             \<and> classified (trace r) = map acts [0..<Suc k]
             \<and> executed (trace r) = map acts [0..<k]
             \<and> length (screenshots (trace r)) = Suc k)
     \<and> ((\<forall>j<n. property (acts j) ''action'' \<noteq> Some (JStr ''none''))
           \<longrightarrow> attempts r = int n
             \<and> classified (trace r) = map acts [0..<n]
             \<and> executed (trace r) = map acts [0..<n]
             \<and> length (screenshots (trace r)) = n)"
proof (cases "\<exists>k<n. property (acts k) ''action'' = Some (JStr ''none'')")
  case True
  define k where "k = (LEAST k. k < n \<and> property (acts k) ''action'' = Some (JStr ''none''))"
  have k: "k < n \<and> property (acts k) ''action'' = Some (JStr ''none'')"
    unfolding k_def using True by (rule LeastI_ex)
  have least: "\<not> (j < n \<and> property (acts j) ''action'' = Some (JStr ''none''))" if "j < k" for j
    using that unfolding k_def by (rule not_less_Least)
  have before: "\<forall>j. 0 \<le> j \<and> j < k \<longrightarrow> property (acts j) ''action'' \<noteq> Some (JStr ''none'')"
  proof (intro allI impI)
    fix j
    assume j: "0 \<le> j \<and> j < k"
    then have "j < n" using k by simp
    with least [of j] j show "property (acts j) ''action'' \<noteq> Some (JStr ''none'')" by simp
  qed
  let ?st = "\<lparr>interactionFound = False, attempts = 0, trace = []\<rparr>"
  have "\<exists>r. interaction_loop jsonParse w (int n) ?st = Inr r \<and> attempts r = int k
            \<and> classified (trace r) = classified (trace ?st) @ map acts [0..<Suc k]
            \<and> executed (trace r) = executed (trace ?st) @ map acts [0..<k]
            \<and> length (screenshots (trace r)) = length (screenshots (trace ?st)) + (Suc k - 0)"
  proof (rule loop_until_none [OF assms])
    show "k < n" using k by simp
    show "property (acts k) ''action'' = Some (JStr ''none'')" using k by simp
    show "0 \<le> k" by simp
    show "attempts ?st = int 0" by simp
    show "\<forall>j. 0 \<le> j \<and> j < k \<longrightarrow> property (acts j) ''action'' \<noteq> Some (JStr ''none'')"
      by (rule before)
  qed
  then obtain r where r: "interaction_loop jsonParse w (int n) ?st = Inr r"
    "attempts r = int k"
    "classified (trace r) = map acts [0..<Suc k]"
    "executed (trace r) = map acts [0..<k]"
    "length (screenshots (trace r)) = Suc k"
    by auto
  have uniq: "k' = k" if "k' < n" "property (acts k') ''action'' = Some (JStr ''none'')"
    "\<forall>j<k'. property (acts j) ''action'' \<noteq> Some (JStr ''none'')" for k'
  proof -
    have "\<not> k' < k" using least [of k'] that(1,2) by blast
    moreover have "\<not> k < k'" using that(3) k by blast
    ultimately show ?thesis by simp
  qed
  have A: "\<forall>k'<n. property (acts k') ''action'' = Some (JStr ''none'')
              \<and> (\<forall>j<k'. property (acts j) ''action'' \<noteq> Some (JStr ''none''))
           \<longrightarrow> attempts r = int k'
             \<and> classified (trace r) = map acts [0..<Suc k']
             \<and> executed (trace r) = map acts [0..<k']
             \<and> length (screenshots (trace r)) = Suc k'"
  proof (intro allI impI)
    fix k'
    assume "k' < n"
      and h: "property (acts k') ''action'' = Some (JStr ''none'')
              \<and> (\<forall>j<k'. property (acts j) ''action'' \<noteq> Some (JStr ''none''))"
    then have "k' = k" using uniq [of k'] by blast
    then show "attempts r = int k'
             \<and> classified (trace r) = map acts [0..<Suc k']
             \<and> executed (trace r) = map acts [0..<k']
             \<and> length (screenshots (trace r)) = Suc k'"
      using r(2-5) by (simp only:)
  qed
  have B: "(\<forall>j<n. property (acts j) ''action'' \<noteq> Some (JStr ''none''))
           \<longrightarrow> attempts r = int n
             \<and> classified (trace r) = map acts [0..<n]
             \<and> executed (trace r) = map acts [0..<n]
             \<and> length (screenshots (trace r)) = n"
    using k by blast
  have "handlePageInteractions jsonParse w (int n) = Inr r"
    using r(1) by (simp add: handlePageInteractions_def)
  with A B show ?thesis by blast
next
  case False
  then have never: "\<forall>j. 0 \<le> j \<and> j < n \<longrightarrow> property (acts j) ''action'' \<noteq> Some (JStr ''none'')"
    by blast
  let ?st = "\<lparr>interactionFound = False, attempts = 0, trace = []\<rparr>"
  have "\<exists>r. interaction_loop jsonParse w (int n) ?st = Inr r \<and> attempts r = int n
            \<and> classified (trace r) = classified (trace ?st) @ map acts [0..<n]
            \<and> executed (trace r) = executed (trace ?st) @ map acts [0..<n]
            \<and> length (screenshots (trace r)) = length (screenshots (trace ?st)) + (n - 0)"
  proof (rule loop_to_cap [OF assms])
    show "0 \<le> n" by simp
    show "attempts ?st = int 0" by simp
    show "\<forall>j. 0 \<le> j \<and> j < n \<longrightarrow> property (acts j) ''action'' \<noteq> Some (JStr ''none'')"
      by (rule never)
  qed
  then obtain r where r: "interaction_loop jsonParse w (int n) ?st = Inr r"
    "attempts r = int n"
    "classified (trace r) = map acts [0..<n]"
    "executed (trace r) = map acts [0..<n]"
    "length (screenshots (trace r)) = n"
    by auto
  have A: "\<forall>k'<n. property (acts k') ''action'' = Some (JStr ''none'')
              \<and> (\<forall>j<k'. property (acts j) ''action'' \<noteq> Some (JStr ''none''))
           \<longrightarrow> attempts r = int k'
             \<and> classified (trace r) = map acts [0..<Suc k']
             \<and> executed (trace r) = map acts [0..<k']
             \<and> length (screenshots (trace r)) = Suc k'"
    using False by blast
  have "handlePageInteractions jsonParse w (int n) = Inr r"
    using r(1) by (simp add: handlePageInteractions_def)
  with A r(2-5) show ?thesis by blast
qed

lemma sample_decision_scroll:
  "decision sample_parse (sample_world scroll_json) = Inr (scroll_by 300)"
  by (simp add: decision_def sample_world_def reply_def analyzePageWithAI_def analyze_try_def
                response_content_def present_str_def truthy_str_def sample_parse_def
                scroll_json_def fallback_content_def)

lemma scroll_rejected_decision:
  "decision sample_parse (scroll_rejected i) = Inr (scroll_by 300)"
  using sample_decision_scroll by (simp add: scroll_rejected_def decision_def sample_world_def)





section \<open>The interaction loop\<close>

text \<open>
  C1. The claim says that for every sequence of classifier answers the loop stops only
  at a "none" answer or at the cap. In a run of cap 2 whose answers are always a
  scroll by 300 and whose page rejects the evaluate call, the executor rejects (its
  scroll branch has no handler, unlike its click and type branches) and so does the
  loop, in its first attempt: no attempt is completed, and no answer was "none".
\<close>

theorem scroll_rejection_aborts:
  "decision sample_parse (scroll_rejected 0) = Inr (scroll_by 300)
   \<and> decision sample_parse (scroll_rejected 1) = Inr (scroll_by 300)
   \<and> property (scroll_by 300) ''action'' = Some (JStr ''scroll'')
   \<and> executeAction (page (scroll_rejected 0)) (scroll_by 300) = Inl EvaluateError
   \<and> handlePageInteractions sample_parse scroll_rejected 2 = Inl EvaluateError"
proof -
  have e: "executeAction (page (scroll_rejected 0)) (scroll_by 300) = Inl EvaluateError"
    by (simp add: scroll_rejected_def executeAction_def execute_scroll_def scroll_by_def
                  property_def present_def truthy_def quiet_page_def sample_world_def)
  have a: "property (scroll_by 300) ''action'' = Some (JStr ''scroll'')"
    by (simp add: scroll_by_def property_def)
  have d: "analyzePageWithAI sample_parse (chat (scroll_rejected 0)) ''png''
             = Inr (scroll_by 300)"
    using scroll_rejected_decision [of 0]
    by (simp add: decision_def scroll_rejected_def sample_world_def)
  have s: "screenshot_result (scroll_rejected 0) = Some ''png''"
    "writeFile_ok (scroll_rejected 0)" "scroll_by 300 \<noteq> JNull"
    by (simp_all add: scroll_rejected_def sample_world_def scroll_by_def)
  have "handlePageInteractions sample_parse scroll_rejected 2 = Inl EvaluateError"
    unfolding handlePageInteractions_def
    by (subst interaction_loop.simps) (simp add: s d e a)
  then show ?thesis
    using scroll_rejected_decision e a by simp
qed

text \<open>
  C2. With \<open>maxAttempts = 0\<close> the loop takes no screenshot, asks the classifier
  nothing, and returns with no interaction found and the counter at 0.
\<close>

theorem zero_attempts:
  "\<exists>r. handlePageInteractions jsonParse w 0 = Inr r
      \<and> interactionFound r = False \<and> attempts r = 0
      \<and> screenshots (trace r) = [] \<and> classified (trace r) = [] \<and> trace r = []"
  by (simp add: handlePageInteractions_def interaction_loop.simps)

text \<open>
  C3. The claim says that a failure to persist the screenshot does not abort the loop.
  In the source the write is awaited with no handler: in a run of cap 1 whose write
  rejects, the loop rejects with the write's error, before the classifier is asked.
\<close>

theorem persist_failure_aborts:
  "handlePageInteractions jsonParse
     (\<lambda>i. \<lparr>screenshot_result = Some shot, writeFile_ok = False, chat = api, page = p\<rparr>) 1
   = Inl WriteFileError"
  by (simp add: handlePageInteractions_def interaction_loop.simps)



section \<open>The executor\<close>

text \<open>
  Counterexample to C4 as stated: a scroll action whose amount is present and is 0 is
  reported as false, and nothing is scrolled.
\<close>

theorem scroll_zero_reports_false:
  "property (scroll_by 0) ''scrollAmount'' = Some (JNum 0)
   \<and> property (scroll_by 0) ''action'' = Some (JStr ''scroll'')
   \<and> executeAction quiet_page (scroll_by 0) = Inr (False, [])"
  by (simp add: scroll_by_def executeAction_def execute_scroll_def property_def present_def
                truthy_def)

text \<open>
  C4, amended. For every scroll action: when the amount is absent or zero the executor
  reports false and scrolls nothing; when the amount is present and not zero and the
  page's evaluate call completes, the executor scrolls the page by that amount and
  reports true.
\<close>

theorem scroll_reports:
  assumes "property a ''action'' = Some (JStr ''scroll'')"
  shows "(property a ''scrollAmount'' = None \<or> property a ''scrollAmount'' = Some (JNum 0)
            \<longrightarrow> executeAction p a = Inr (False, []))
       \<and> (\<forall>n. property a ''scrollAmount'' = Some (JNum n) \<and> n \<noteq> 0 \<and> evaluate_ok p
            \<longrightarrow> executeAction p a = Inr (True, [ScrollBy (JNum n)]))"
proof -
  have "a \<noteq> JNull" using assms by (auto simp: property_def)
  with assms have "executeAction p a = execute_scroll p a"
    by (simp add: executeAction_def)
  then show ?thesis
    by (auto simp: execute_scroll_def present_def truthy_def)
qed

text \<open>Witness of C4: scrolling by 300 on a quiet page, and scrolling by 0.\<close>

theorem scroll_reports_witness:
  "property (scroll_by 300) ''action'' = Some (JStr ''scroll'')
   \<and> property (scroll_by 300) ''scrollAmount'' = Some (JNum 300) \<and> (300::rat) \<noteq> 0
   \<and> evaluate_ok quiet_page
   \<and> executeAction quiet_page (scroll_by 300) = Inr (True, [ScrollBy (JNum 300)])
   \<and> property (scroll_by 0) ''action'' = Some (JStr ''scroll'')
   \<and> property (scroll_by 0) ''scrollAmount'' = Some (JNum 0)
   \<and> executeAction quiet_page (scroll_by 0) = Inr (False, [])"
proof -
  have a: "property (scroll_by 300) ''action'' = Some (JStr ''scroll'')"
    and b: "property (scroll_by 0) ''action'' = Some (JStr ''scroll'')"
    by (simp_all add: scroll_by_def property_def)
  have c: "property (scroll_by 300) ''scrollAmount'' = Some (JNum 300)"
    "property (scroll_by 0) ''scrollAmount'' = Some (JNum 0)"
    "evaluate_ok quiet_page"
    by (simp_all add: scroll_by_def property_def quiet_page_def)
  show ?thesis
    using scroll_reports [OF a, of quiet_page] scroll_reports [OF b, of quiet_page] a b c
    by simp
qed

section \<open>Cross-frame click\<close>

lemma frame_callback_value:
  "\<exists>res. frame_callback lower t f = Inr res
      \<and> r_frame (fst res) = frame_label f
      \<and> r_found (fst res) = (0 < frame_count lower t f)
      \<and> r_count (fst res) = frame_count lower t f
      \<and> snd res = frame_clicks lower t f"
  by (auto simp: frame_callback_def frame_try_def frame_count_def frame_clicks_def Let_def
                 promise_all_click_index
           split: option.split)

lemma frame_callback_projr:
  "r_frame (fst (projr (frame_callback lower t f))) = frame_label f"
  "r_found (fst (projr (frame_callback lower t f))) = (0 < frame_count lower t f)"
  "r_count (fst (projr (frame_callback lower t f))) = frame_count lower t f"
  "snd (projr (frame_callback lower t f)) = frame_clicks lower t f"
  using frame_callback_value [of lower t f] by auto

lemma foldl_counts:
  "foldl (\<lambda>sum r. sum + r_count r) a rs = a + sum_list (map r_count rs)"
  by (induction rs arbitrary: a) simp_all

lemma found_counts:
  "sum_list (map r_count
       (filter r_found (map (\<lambda>f. fst (projr (frame_callback lower t f))) fs)))
     = sum_list (map (frame_count lower t) fs)"
  by (induction fs) (simp_all add: frame_callback_projr)

lemma found_labels:
  "map r_frame (filter r_found (map (\<lambda>f. fst (projr (frame_callback lower t f))) fs))
     = map frame_label (filter (\<lambda>f. 0 < frame_count lower t f) fs)"
  by (induction fs) (simp_all add: frame_callback_projr)

lemma lower_case_accept: "ascii_lower ''ACCEPT'' = ''accept''"
  by code_simp

lemma three_frames_counts: "map (frame_count ascii_lower ''accept'') three_frames = [1, 1, 0]"
  by code_simp

lemma three_frames_clicks:
  "concat (map (frame_clicks ascii_lower ''accept'') three_frames)
   = [ClickEvent ''main'' 1 True, ClickEvent ''https://consent.example.org/'' 0 False]"
  by code_simp

lemma three_frames_labels:
  "map frame_label (filter (\<lambda>f. 0 < frame_count ascii_lower ''accept'' f) three_frames)
   = [''main'', ''https://consent.example.org/'']"
  by code_simp

text \<open>
  C6. For every page, whatever its frames, and every text the call returns normally,
  also when nothing matches. Each frame adds to the totals what it would add alone: the
  total logged is the sum of the match counts of the frames whose queries answered, the
  frames reported are those with a match, and every matching element that has a handle
  is clicked once, whether or not another click or another frame failed.
\<close>

theorem text_click_isolated:
  "\<exists>s. clickElementsByText p target = Inr s
      \<and> length (results s) = length (frames p)
      \<and> totalClicks s
          = sum_list (map (frame_count (toLowerCase p) (toLowerCase p target)) (frames p))
      \<and> map r_frame (successfulFrames s)
          = map frame_label
              (filter (\<lambda>f. 0 < frame_count (toLowerCase p) (toLowerCase p target) f)
                      (frames p))
      \<and> clicks s
          = concat (map (frame_clicks (toLowerCase p) (toLowerCase p target)) (frames p))"
  by (simp add: clickElementsByText_def Let_def promise_all_frames foldl_counts
                found_counts found_labels frame_callback_projr comp_def)

text \<open>
  An instance of C6: of three frames two hold a match and the third one's query
  throws; the two are reported with one element each, and the failed click of the
  second frame leaves the first frame's click in place.
\<close>

theorem text_click_isolated_witness:
  "\<exists>s. clickElementsByText three_frame_page ''ACCEPT'' = Inr s
      \<and> length (results s) = 3
      \<and> totalClicks s = 2
      \<and> map r_frame (successfulFrames s) = [''main'', ''https://consent.example.org/'']
      \<and> clicks s = [ClickEvent ''main'' 1 True,
                     ClickEvent ''https://consent.example.org/'' 0 False]"
proof -
  have p: "frames three_frame_page = three_frames" "toLowerCase three_frame_page = ascii_lower"
    by (simp_all add: three_frame_page_def quiet_page_def)
  have len: "length three_frames = 3" by (simp add: three_frames_def)
  show ?thesis
    using text_click_isolated [of three_frame_page "''ACCEPT''"]
    unfolding p lower_case_accept three_frames_counts three_frames_clicks three_frames_labels len
    by (simp add: numeral_2_eq_2)
qed

section \<open>The classifier\<close>




section \<open>The code-block rule\<close>

lemma split_lines_nonempty: "split_lines s \<noteq> []"
  by (induction s) (simp_all split: list.split)

lemma split_lines_cons:
  "c \<noteq> nl \<Longrightarrow> split_lines (c # s) = (c # hd (split_lines s)) # tl (split_lines s)"
  using split_lines_nonempty [of s] by (cases "split_lines s") simp_all

lemma split_lines_snoc: "split_lines (s @ [nl]) = split_lines s @ [[]]"
proof (induction s)
  case Nil
  show ?case by simp
next
  case (Cons c s)
  show ?case
  proof (cases "c = nl")
    case True
    with Cons show ?thesis by simp
  next
    case False
    obtain l ls where "split_lines s = l # ls"
      using split_lines_nonempty [of s] by (cases "split_lines s") auto
    with False Cons show ?thesis by simp
  qed
qed

lemma kept_nl: "kept_lines (nl # s) = kept_lines s"
  by (simp add: kept_lines_def)

lemma kept_snoc: "kept_lines (s @ [nl]) = kept_lines s"
  by (simp add: kept_lines_def split_lines_snoc)

lemma kept_dropWhile: "kept_lines (dropWhile (\<lambda>c. c = nl) s) = kept_lines s"
  by (induction s) (simp_all add: kept_nl)

lemma kept_drop_end: "kept_lines (rev (dropWhile (\<lambda>c. c = nl) (rev s))) = kept_lines s"
  by (induction s rule: rev_induct) (simp_all add: kept_snoc)

lemma kept_strip: "kept_lines (strip_newlines s) = kept_lines s"
  by (simp add: strip_newlines_def kept_drop_end kept_dropWhile)

lemma collapse_Nil: "collapse_newlines s = [] \<longleftrightarrow> s = []"
  by (induction s rule: collapse_newlines.induct) simp_all

lemma collapse_hd: "s \<noteq> [] \<Longrightarrow> hd (collapse_newlines s) = hd s"
  by (induction s rule: collapse_newlines.induct) simp_all

lemma kept_cons:
  "c \<noteq> nl \<Longrightarrow>
   kept_lines (c # s) =
     (if s = [] \<or> hd s = nl then [c] # kept_lines s
      else (c # hd (kept_lines s)) # tl (kept_lines s))"
proof (cases s)
  case Nil
  assume "c \<noteq> nl"
  with Nil show ?thesis by (simp add: kept_lines_def)
next
  case (Cons d s')
  assume c: "c \<noteq> nl"
  obtain l ls where l: "split_lines s' = l # ls"
    using split_lines_nonempty [of s'] by (cases "split_lines s'") auto
  show ?thesis
    using c Cons l by (simp add: kept_lines_def)
qed

lemma kept_collapse: "kept_lines (collapse_newlines s) = kept_lines s"
proof (induction s rule: collapse_newlines.induct)
  case 1
  show ?case by simp
next
  case (2 c)
  show ?case by simp
next
  case (3 c d cs)
  show ?case
  proof (cases "c = nl \<and> d = nl")
    case True
    with 3 show ?thesis by (simp add: kept_nl kept_dropWhile)
  next
    case False
    note IH = "3.IH"(2) [OF False]
    show ?thesis
    proof (cases "c = nl")
      case True
      with False IH show ?thesis by (simp add: kept_nl)
    next
      case cn: False
      define X where "X = collapse_newlines (d # cs)"
      have step: "collapse_newlines (c # d # cs) = c # X"
        using cn by (simp add: X_def)
      have X: "X \<noteq> []" "hd X = d" "kept_lines X = kept_lines (d # cs)"
        using IH by (simp_all add: X_def collapse_Nil collapse_hd)
      have "kept_lines (c # X) =
              (if hd X = nl then [c] # kept_lines X
               else (c # hd (kept_lines X)) # tl (kept_lines X))"
        using kept_cons [OF cn, of X] X(1) by simp
      also have "\<dots> = (if d = nl then [c] # kept_lines (d # cs)
               else (c # hd (kept_lines (d # cs))) # tl (kept_lines (d # cs)))"
        by (simp only: X)
      also have "\<dots> = kept_lines (c # d # cs)"
        using kept_cons [OF cn, of "d # cs"] by simp
      finally show ?thesis
        by (simp only: step)
    qed
  qed
qed

lemma join_lines_cons: "join_lines ((c # l) # ls) = c # join_lines (l # ls)"
  by (cases ls) simp_all

lemma join_split: "join_lines (split_lines s) = s"
proof (induction s)
  case Nil
  show ?case by simp
next
  case (Cons c s)
  obtain l ls where l: "split_lines s = l # ls"
    using split_lines_nonempty [of s] by (cases "split_lines s") auto
  show ?case
  proof (cases "c = nl")
    case True
    with Cons l show ?thesis by simp
  next
    case False
    with Cons l show ?thesis by (simp add: join_lines_cons)
  qed
qed

lemma hd_split_lines: "hd (split_lines t) = [] \<longleftrightarrow> t = [] \<or> hd t = nl"
proof (cases t)
  case Nil
  then show ?thesis by simp
next
  case (Cons c s)
  show ?thesis
  proof (cases "c = nl")
    case True
    with Cons show ?thesis by simp
  next
    case False
    with Cons show ?thesis by (simp only: split_lines_cons [OF False]) simp
  qed
qed

lemma last_dropWhile: "dropWhile P xs \<noteq> [] \<Longrightarrow> last (dropWhile P xs) = last xs"
  by (metis last_appendR takeWhile_dropWhile_id)

lemma strip_ends:
  assumes "strip_newlines s \<noteq> []"
  shows "hd (strip_newlines s) \<noteq> nl" and "last (strip_newlines s) \<noteq> nl"
proof -
  define a where "a = dropWhile (\<lambda>c. c = nl) s"
  define b where "b = dropWhile (\<lambda>c. c = nl) (rev a)"
  have s: "strip_newlines s = rev b"
    by (simp add: strip_newlines_def a_def b_def)
  with assms have b: "b \<noteq> []" by simp
  then have a: "a \<noteq> []" by (auto simp: b_def)
  have "hd b \<noteq> nl"
    using b hd_dropWhile [of "\<lambda>c. c = nl" "rev a"] by (simp add: b_def)
  then show "last (strip_newlines s) \<noteq> nl"
    using b by (simp add: s last_rev)
  have "last b = last (rev a)"
    using b last_dropWhile [of "\<lambda>c. c = nl" "rev a"] by (simp add: b_def)
  also have "\<dots> = hd a" using a by (simp add: last_rev)
  finally have "last b = hd a" .
  moreover have "hd a \<noteq> nl"
    using a hd_dropWhile [of "\<lambda>c. c = nl" s] by (simp add: a_def)
  ultimately show "hd (strip_newlines s) \<noteq> nl"
    using b by (simp add: s hd_rev)
qed

lemma collapse_tail_lines:
  "u \<noteq> [] \<Longrightarrow> last u \<noteq> nl \<Longrightarrow> [] \<notin> set (tl (split_lines (collapse_newlines u)))"
proof (induction u rule: collapse_newlines.induct)
  case 1
  then show ?case by simp
next
  case (2 c)
  then show ?case by simp
next
  case (3 c d cs)
  show ?case
  proof (cases "c = nl \<and> d = nl")
    case True
    define u' where "u' = dropWhile (\<lambda>x. x = nl) cs"
    have ne: "u' \<noteq> []"
    proof
      assume "u' = []"
      then have "\<forall>x\<in>set cs. x = nl" by (simp add: u'_def dropWhile_eq_Nil_conv)
      then have "last (c # d # cs) = nl" using True by (cases "cs = []") simp_all
      with "3.prems" show False by simp
    qed
    have h: "hd u' \<noteq> nl"
      using ne hd_dropWhile [of "\<lambda>x. x = nl" cs] by (simp add: u'_def)
    have "last u' = last cs"
      using ne last_dropWhile [of "\<lambda>x. x = nl" cs] by (simp add: u'_def)
    moreover have "cs \<noteq> []" using ne by (auto simp: u'_def)
    ultimately have l: "last u' \<noteq> nl" using "3.prems" by simp
    have tl: "[] \<notin> set (tl (split_lines (collapse_newlines u')))"
      using "3.IH"(1) [OF True] ne l by (simp add: u'_def)
    have "hd (split_lines (collapse_newlines u')) \<noteq> []"
      using ne h by (simp add: hd_split_lines collapse_Nil collapse_hd)
    with tl have "[] \<notin> set (split_lines (collapse_newlines u'))"
      using split_lines_nonempty [of "collapse_newlines u'"]
      by (cases "split_lines (collapse_newlines u')") auto
    moreover have "collapse_newlines (c # d # cs) = nl # collapse_newlines u'"
      using True by (simp add: u'_def)
    ultimately show ?thesis by simp
  next
    case False
    define Y where "Y = collapse_newlines (d # cs)"
    have tl: "[] \<notin> set (tl (split_lines Y))"
      using "3.IH"(2) [OF False] "3.prems" by (simp add: Y_def)
    show ?thesis
    proof (cases "c = nl")
      case True
      with False have d: "d \<noteq> nl" by simp
      have step: "collapse_newlines (c # d # cs) = nl # Y"
        using True d by (simp add: Y_def)
      have "hd (split_lines Y) \<noteq> []"
        using d by (simp add: Y_def hd_split_lines collapse_Nil collapse_hd)
      with tl have "[] \<notin> set (split_lines Y)"
        using split_lines_nonempty [of Y] by (cases "split_lines Y") auto
      then show ?thesis unfolding step by simp
    next
      case cn: False
      have step: "collapse_newlines (c # d # cs) = c # Y"
        using cn by (simp add: Y_def)
      show ?thesis
        unfolding step using tl by (simp add: split_lines_cons [OF cn] del: split_lines.simps)
    qed
  qed
qed

lemma join_kept_clean: "join_lines (kept_lines (cleanContent s)) = cleanContent s"
proof (cases "strip_newlines s = []")
  case True
  then show ?thesis by (simp add: cleanContent_def kept_lines_def)
next
  case False
  define t where "t = cleanContent s"
  have t: "t \<noteq> []" "hd t \<noteq> nl"
    using False strip_ends(1) [OF False]
    by (simp_all add: t_def cleanContent_def collapse_Nil collapse_hd)
  have "[] \<notin> set (tl (split_lines t))"
    using collapse_tail_lines [OF False strip_ends(2) [OF False]]
    by (simp add: t_def cleanContent_def)
  moreover have "hd (split_lines t) \<noteq> []"
    using t by (simp add: hd_split_lines)
  ultimately have "[] \<notin> set (split_lines t)"
    using split_lines_nonempty [of t] by (cases "split_lines t") auto
  then have "kept_lines t = split_lines t"
    by (auto simp: kept_lines_def filter_id_conv)
  then show ?thesis
    by (simp add: t_def [symmetric] join_split)
qed

lemma cleanContent_lines:
  "cleanContent s = join_lines (filter (\<lambda>l. l \<noteq> []) (split_lines s))"
proof -
  have "cleanContent s = join_lines (kept_lines (cleanContent s))"
    by (simp add: join_kept_clean)
  also have "kept_lines (cleanContent s) = kept_lines s"
    by (simp add: cleanContent_def kept_collapse kept_strip)
  finally show ?thesis by (simp add: kept_lines_def)
qed

lemma match_language_nonempty: "match_language s = Some l \<Longrightarrow> l \<noteq> []"
  by (induction s) (auto split: if_splits)

lemma match_language_class:
  assumes "w \<noteq> []" and "\<forall>c \<in> set w. word_char c"
  shows "match_language (''language-'' @ w) = Some w"
proof -
  have tw: "takeWhile word_char w = w" using assms(2) by (simp add: takeWhile_eq_all_conv)
  show ?thesis by (simp add: tw assms(1))
qed

lemma python_word: "\<forall>c \<in> set ''python''. word_char c"
  by (simp add: word_char_def)

lemma bash_code_language: "code_language bash_pre = None"
  by (simp add: code_language_def bash_pre_def)

lemma print_lines:
  "join_lines (filter (\<lambda>l. l \<noteq> []) (split_lines (''print(1)'' @ [nl, nl, nl]))) = ''print(1)''"
  by (simp add: nl_def)

text \<open>
  Counterexample to C8 as stated: around two lines that are two blank lines apart, the
  specification's wording keeps one blank line, the rule keeps none; and a block whose
  \<open>data-language\<close> attribute is present but empty is tagged \<open>yaml\<close>.
\<close>

theorem code_block_blank_lines:
  "spec_interior two_blank_lines = ''a'' @ [nl, nl] @ ''b''
   \<and> cleanContent two_blank_lines = ''a'' @ [nl] @ ''b''
   \<and> data_language bare_pre = Some []
   \<and> codeBlocks_replacement two_blank_lines bare_pre
       = [nl] @ ''```yaml'' @ [nl] @ ''a'' @ [nl] @ ''b'' @ [nl] @ ''```'' @ [nl]"
  by (simp add: two_blank_lines_def bare_pre_def spec_interior_def spec_trim_blank_def
                cleanContent_def strip_newlines_def codeBlocks_replacement_def language_def
                code_language_def present_str_def truthy_str_def nl_def)

text \<open>
  C8, amended. For every \<open>pre\<close> element the rule produces a block fenced by triple
  backticks. Its tag is the word after \<open>language-\<close> in the class name of the first
  nested \<open>code\<close> element when there is one, else the block's \<open>data-language\<close>
  attribute when that is not empty, else \<open>yaml\<close>. Its interior is the non-empty lines
  of the content, in order, one newline between them: leading and trailing newlines are
  gone and every run of two or more newlines has become one newline, so no blank line
  is left.
\<close>

theorem code_block_rendering:
  "codeBlocks_replacement content node
     = [nl] @ ''```'' @ language node @ [nl]
       @ join_lines (filter (\<lambda>l. l \<noteq> []) (split_lines content))
       @ [nl] @ ''```'' @ [nl]
   \<and> (\<forall>w. first_code node = Some \<lparr>className = ''language-'' @ w\<rparr>
            \<and> w \<noteq> [] \<and> (\<forall>c \<in> set w. word_char c)
          \<longrightarrow> language node = w)
   \<and> (\<forall>l. code_language node = Some l \<longrightarrow> language node = l)
   \<and> (\<forall>d. code_language node = None \<and> data_language node = Some d \<and> d \<noteq> []
          \<longrightarrow> language node = d)
   \<and> (code_language node = None
        \<and> (data_language node = None \<or> data_language node = Some [])
          \<longrightarrow> language node = ''yaml'')"
proof (intro conjI allI impI)
  show "codeBlocks_replacement content node
     = [nl] @ ''```'' @ language node @ [nl]
       @ join_lines (filter (\<lambda>l. l \<noteq> []) (split_lines content))
       @ [nl] @ ''```'' @ [nl]"
    by (simp add: codeBlocks_replacement_def cleanContent_lines)
next
  fix w
  assume a: "first_code node = Some \<lparr>className = ''language-'' @ w\<rparr>
            \<and> w \<noteq> [] \<and> (\<forall>c \<in> set w. word_char c)"
  then have "code_language node = Some w"
    using match_language_class [of w] by (simp add: code_language_def)
  with a show "language node = w"
    by (simp add: language_def present_str_def truthy_str_def)
next
  fix l
  assume "code_language node = Some l"
  then show "language node = l"
    using match_language_nonempty [of _ l]
    by (auto simp: language_def present_str_def truthy_str_def code_language_def
             split: option.splits)
next
  fix d
  assume "code_language node = None \<and> data_language node = Some d \<and> d \<noteq> []"
  then show "language node = d"
    by (simp add: language_def present_str_def truthy_str_def)
next
  assume "code_language node = None
        \<and> (data_language node = None \<or> data_language node = Some [])"
  then show "language node = ''yaml''"
    by (auto simp: language_def present_str_def truthy_str_def)
qed

text \<open>
  Witness of C8: the block \<open>print(1)\<close> with three trailing newlines under a
  \<open>language-python\<close> class, a block tagged by its attribute, and the fallback.
\<close>

theorem code_block_rendering_witness:
  "first_code python_pre = Some \<lparr>className = ''language-'' @ ''python''\<rparr>
   \<and> language python_pre = ''python''
   \<and> codeBlocks_replacement (''print(1)'' @ [nl, nl, nl]) python_pre
       = [nl] @ ''```python'' @ [nl] @ ''print(1)'' @ [nl] @ ''```'' @ [nl]
   \<and> code_language bash_pre = None \<and> data_language bash_pre = Some ''bash''
   \<and> language bash_pre = ''bash''
   \<and> code_language bare_pre = None \<and> data_language bare_pre = Some []
   \<and> language bare_pre = ''yaml''"
proof -
  have p: "first_code python_pre = Some \<lparr>className = ''language-'' @ ''python''\<rparr>"
    by (simp add: python_pre_def)
  have b: "code_language bash_pre = None" "data_language bash_pre = Some ''bash''"
    by (simp_all add: bash_code_language) (simp add: bash_pre_def)
  have e: "code_language bare_pre = None" "data_language bare_pre = Some []"
    by (simp_all add: code_language_def bare_pre_def)
  have l1: "language python_pre = ''python''"
    using code_block_rendering [of "''print(1)'' @ [nl, nl, nl]" python_pre] p python_word
    by simp
  have l2: "language bash_pre = ''bash''"
    using code_block_rendering [of "[]" bash_pre] b by simp
  have l3: "language bare_pre = ''yaml''"
    using code_block_rendering [of "[]" bare_pre] e by simp
  have out: "codeBlocks_replacement (''print(1)'' @ [nl, nl, nl]) python_pre
       = [nl] @ ''```python'' @ [nl] @ ''print(1)'' @ [nl] @ ''```'' @ [nl]"
    using code_block_rendering [of "''print(1)'' @ [nl, nl, nl]" python_pre]
    by (simp only: print_lines l1) simp
  show ?thesis
    using p b e l1 l2 l3 out by simp
qed

section \<open>The tool response\<close>

lemma show_nat_100000: "show_nat 100000 = ''100000''"
  by (simp add: show_nat.simps digit_char_def)

lemma show_nat_nonempty: "show_nat n \<noteq> []"
  by (subst show_nat.simps) simp

lemma digit_char_inj: "a < 10 \<Longrightarrow> b < 10 \<Longrightarrow> digit_char a = digit_char b \<Longrightarrow> a = b"
proof -
  have table: "\<forall>x \<in> set [0..<10]. \<forall>y \<in> set [0..<10]. digit_char x = digit_char y \<longrightarrow> x = y"
    by code_simp
  assume "a < 10" "b < 10" "digit_char a = digit_char b"
  with table show ?thesis by simp
qed

lemma show_nat_inj: "show_nat n = show_nat m \<Longrightarrow> n = m"
proof (induction n arbitrary: m rule: show_nat.induct)
  case (1 n)
  show ?case
  proof (cases "n < 10")
    case True
    then have n: "show_nat n = [digit_char n]" by (subst show_nat.simps) simp
    show ?thesis
    proof (cases "m < 10")
      case True
      then have "show_nat m = [digit_char m]" by (subst show_nat.simps) simp
      with n "1.prems" \<open>n < 10\<close> True show ?thesis
        by (simp add: digit_char_inj)
    next
      case False
      then have "show_nat m = show_nat (m div 10) @ [digit_char (m mod 10)]"
        by (subst show_nat.simps) simp
      with n "1.prems" show_nat_nonempty [of "m div 10"] show ?thesis
        by (cases "show_nat (m div 10)") simp_all
    qed
  next
    case False
    then have n: "show_nat n = show_nat (n div 10) @ [digit_char (n mod 10)]"
      by (subst show_nat.simps) simp
    show ?thesis
    proof (cases "m < 10")
      case True
      then have "show_nat m = [digit_char m]" by (subst show_nat.simps) simp
      with n "1.prems" show_nat_nonempty [of "n div 10"] show ?thesis
        by (cases "show_nat (n div 10)") simp_all
    next
      case mbig: False
      then have "show_nat m = show_nat (m div 10) @ [digit_char (m mod 10)]"
        by (subst show_nat.simps) simp
      with n "1.prems" have eq: "show_nat (n div 10) = show_nat (m div 10)"
        "digit_char (n mod 10) = digit_char (m mod 10)"
        by simp_all
      have "n div 10 = m div 10" using "1.IH" [OF False eq(1)] .
      moreover have "n mod 10 = m mod 10" using eq(2) by (simp add: digit_char_inj)
      ultimately show ?thesis by (metis div_mult_mod_eq)
    qed
  qed
qed

lemma length_long_markdown: "length long_markdown = 100001"
  by (simp add: long_markdown_def)

text \<open>
  C9. For every rendered Markdown string of a successful scrape: when it has at most
  100,000 characters the response carries it unchanged with the message "Scraping
  successful"; when it has more, the response carries its first 100,000 characters,
  exactly that many, and the message says that the content was truncated.
\<close>

theorem tool_truncates:
  assumes "result_error result = None" and "result_data result = Some md"
  shows "(length md \<le> 100000
            \<longrightarrow> content_text (scrape_tool (Inr result)) = md
              \<and> meta_message (scrape_tool (Inr result)) = ''Scraping successful'')
       \<and> (100000 < length md
            \<longrightarrow> content_text (scrape_tool (Inr result)) = take 100000 md
              \<and> length (content_text (scrape_tool (Inr result))) = 100000
              \<and> take 29 (meta_message (scrape_tool (Inr result)))
                  = ''Content truncated due to size''
              \<and> meta_message (scrape_tool (Inr result)) \<noteq> ''Scraping successful'')
       \<and> meta_success (scrape_tool (Inr result))
       \<and> \<not> isError (scrape_tool (Inr result))"
  using assms
  by (cases md)
     (simp_all add: scrape_tool_def maxLength_def present_str_def truthy_str_def Let_def
                createSuccessResponse_def)

text \<open>Witness of C9: a short page and a page of 100,001 characters.\<close>

theorem tool_truncates_witness:
  "length ''# Title'' \<le> 100000
   \<and> content_text (scrape_tool (Inr short_result)) = ''# Title''
   \<and> meta_message (scrape_tool (Inr short_result)) = ''Scraping successful''
   \<and> 100000 < length long_markdown
   \<and> content_text (scrape_tool (Inr long_result)) = take 100000 long_markdown
   \<and> length (content_text (scrape_tool (Inr long_result))) = 100000
   \<and> take 29 (meta_message (scrape_tool (Inr long_result))) = ''Content truncated due to size''"
proof -
  have s: "result_error short_result = None" "result_data short_result = Some ''# Title''"
    by (simp_all add: short_result_def)
  have l: "result_error long_result = None" "result_data long_result = Some long_markdown"
    by (simp_all add: long_result_def)
  show ?thesis
    using tool_truncates [OF s] tool_truncates [OF l] length_long_markdown by simp
qed

text \<open>
  C10. Whenever the Markdown has more than 100,000 characters, the size written in the
  message is the length of the content after truncation, 100000, and not the length
  of the original.
\<close>

theorem truncation_message_size:
  assumes "result_error result = None" and "result_data result = Some md"
    and "100000 < length md"
  shows "meta_message (scrape_tool (Inr result))
           = ''Content truncated due to size (total size: ''
             @ show_nat (length (content_text (scrape_tool (Inr result)))) @ '' characters)''
       \<and> length (content_text (scrape_tool (Inr result))) = 100000
       \<and> meta_message (scrape_tool (Inr result))
           = ''Content truncated due to size (total size: 100000 characters)''
       \<and> meta_message (scrape_tool (Inr result))
           \<noteq> ''Content truncated due to size (total size: ''
             @ show_nat (length md) @ '' characters)''"
proof -
  have ne: "md \<noteq> []" using assms(3) by auto
  have r: "scrape_tool (Inr result)
      = createSuccessResponse (take 100000 md)
          (''Content truncated due to size (total size: ''
           @ show_nat (length (take 100000 md)) @ '' characters)'')"
    using assms ne
    by (simp add: scrape_tool_def maxLength_def present_str_def truthy_str_def Let_def)
  have len: "min (length md) 100000 = 100000" using assms(3) by simp
  have "show_nat (length md) \<noteq> show_nat 100000"
    using show_nat_inj [of "length md" 100000] assms(3) by auto
  then show ?thesis
    by (simp add: r len createSuccessResponse_def show_nat_100000)
qed

text \<open>Witness of C10: a page of 100,001 characters is reported as 100000.\<close>

theorem truncation_message_size_witness:
  "100000 < length long_markdown
   \<and> length (content_text (scrape_tool (Inr long_result))) = 100000
   \<and> meta_message (scrape_tool (Inr long_result))
       = ''Content truncated due to size (total size: 100000 characters)''
   \<and> show_nat (length long_markdown) = ''100001''"
proof -
  have l: "result_error long_result = None" "result_data long_result = Some long_markdown"
    by (simp_all add: long_result_def)
  have big: "100000 < length long_markdown"
    by (simp add: length_long_markdown)
  have "show_nat 100001 = ''100001''"
    by (simp add: show_nat.simps digit_char_def)
  then show ?thesis
    using truncation_message_size [OF l big] big length_long_markdown
    by (simp add: show_nat_100000)
qed

end
